theory Spec2Isabelle
  imports Main "HOL-Library.Sublist" "HOL-Library.Multiset" "HOL-Library.List_Lexorder"
    "HOL-Library.While_Combinator" "HOL-Library.Log_Nat" "HOL-Library.Code_Target_Nat"
begin

section \<open>Text: Python strings as lists of code points\<close>

text \<open>
  A Python \<^verbatim>\<open>str\<close> is a sequence of Unicode code points, and \<^verbatim>\<open>len\<close> counts code
  points. A code point is a natural number here and a string a list of them; an ASCII
  literal is written \<open>asc ''ITEM''\<close>.

  What Python knows about the ASCII code points is written out below. What it knows about
  the others lives in the Unicode character database, which is not part of the program:
  it is the parameter \<open>U\<close> of every function that consults it. The one exception is
  the set of whitespace characters, which is small and is written out in full.
\<close>

type_synonym cp = nat
type_synonym ustr = "cp list"

abbreviation asc :: "string \<Rightarrow> ustr" where
  "asc s \<equiv> map of_char s"

record ucd =
  nfkd_tab :: "cp \<Rightarrow> cp list"          \<comment> \<open>full compatibility decomposition of a code point\<close>
  combining_tab :: "cp \<Rightarrow> bool"         \<comment> \<open>\<^verbatim>\<open>unicodedata.combining(ch) != 0\<close>\<close>
  upper_tab :: "cp \<Rightarrow> cp list"         \<comment> \<open>\<^verbatim>\<open>ch.upper()\<close>\<close>
  alnum_tab :: "cp \<Rightarrow> bool"             \<comment> \<open>\<^verbatim>\<open>ch.isalnum()\<close>\<close>
  decimal_tab :: "cp \<Rightarrow> nat option"    \<comment> \<open>\<^verbatim>\<open>unicodedata.decimal(ch)\<close>, if any\<close>

definition isspace :: "cp \<Rightarrow> bool" where
  "isspace c \<longleftrightarrow>
     (9 \<le> c \<and> c \<le> 13) \<or> (28 \<le> c \<and> c \<le> 32) \<or> c = 133 \<or> c = 160 \<or> c = 5760 \<or>
     (8192 \<le> c \<and> c \<le> 8202) \<or> c = 8232 \<or> c = 8233 \<or> c = 8239 \<or> c = 8287 \<or> c = 12288"

definition nfkd :: "ucd \<Rightarrow> cp \<Rightarrow> cp list" where
  "nfkd U c = (if c < 128 then [c] else nfkd_tab U c)"

definition combining :: "ucd \<Rightarrow> cp \<Rightarrow> bool" where
  "combining U c \<longleftrightarrow> 128 \<le> c \<and> combining_tab U c"

definition upper_cp :: "ucd \<Rightarrow> cp \<Rightarrow> cp list" where
  "upper_cp U c = (if c < 128 then (if 97 \<le> c \<and> c \<le> 122 then [c - 32] else [c]) else upper_tab U c)"

definition isalnum :: "ucd \<Rightarrow> cp \<Rightarrow> bool" where
  "isalnum U c \<longleftrightarrow>
     (if c < 128 then (48 \<le> c \<and> c \<le> 57) \<or> (65 \<le> c \<and> c \<le> 90) \<or> (97 \<le> c \<and> c \<le> 122)
      else alnum_tab U c)"

definition upper :: "ucd \<Rightarrow> ustr \<Rightarrow> ustr" where
  "upper U s = concat (map (upper_cp U) s)"

text \<open>\<^verbatim>\<open>s.strip()\<close>, \<^verbatim>\<open>s.replace(a, b)\<close> for single characters, \<^verbatim>\<open>sub in s\<close> and
  \<^verbatim>\<open>sep.join(xs)\<close>.\<close>

definition strip :: "ustr \<Rightarrow> ustr" where
  "strip s = rev (dropWhile isspace (rev (dropWhile isspace s)))"

definition replace_cp :: "cp \<Rightarrow> cp \<Rightarrow> ustr \<Rightarrow> ustr" where
  "replace_cp a b s = map (\<lambda>c. if c = a then b else c) s"

definition remove_cp :: "cp \<Rightarrow> ustr \<Rightarrow> ustr" where
  "remove_cp a s = filter (\<lambda>c. c \<noteq> a) s"

fun py_in :: "ustr \<Rightarrow> ustr \<Rightarrow> bool" where
  "py_in sub [] = (sub = [])"
| "py_in sub (c # cs) = (prefix sub (c # cs) \<or> py_in sub cs)"

fun join :: "ustr \<Rightarrow> ustr list \<Rightarrow> ustr" where
  "join sep [] = []"
| "join sep [x] = x"
| "join sep (x # y # xs) = x @ sep @ join sep (y # xs)"

text \<open>\<^verbatim>\<open>re.sub(r"\s+", " ", s)\<close>: every maximal run of whitespace becomes one space.\<close>

function sub_ws :: "ustr \<Rightarrow> ustr" where
  "sub_ws [] = []"
| "sub_ws (c # cs) = (if isspace c then 32 # sub_ws (dropWhile isspace cs) else c # sub_ws cs)"
  by pat_completeness auto
termination
  by (relation "measure length") (auto simp: le_imp_less_Suc length_dropWhile_le)

section \<open>Text Normalizer\<close>

text \<open>
  A raw cell of a sheet read with \<^verbatim>\<open>dtype=str\<close> is text, or the float NaN that pandas
  puts in an empty cell; \<^verbatim>\<open>None\<close> is the value \<^verbatim>\<open>norm_cell\<close> itself tests for.
\<close>

datatype pyval = PyNone | PyStr ustr | PyNaN

fun py_str :: "pyval \<Rightarrow> ustr" where
  "py_str PyNone = asc ''None''"
| "py_str (PyStr s) = s"
| "py_str PyNaN = asc ''nan''"

text \<open>
  \<^verbatim>\<open>strip_accents\<close>. NFKD also reorders runs of combining marks, which changes nothing
  here: only characters of combining class 0 survive the filter, and reordering never
  moves those.
\<close>

definition strip_accents :: "ucd \<Rightarrow> ustr \<Rightarrow> ustr" where
  "strip_accents U s = filter (\<lambda>ch. \<not> combining U ch) (concat (map (nfkd U) s))"

definition norm_cell :: "pyval \<Rightarrow> ustr" where
  "norm_cell x =
     (if x = PyNone then []
      else let s = strip (replace_cp 160 32 (py_str x)) in sub_ws s)"

definition key_char :: "cp \<Rightarrow> bool" where
  "key_char c \<longleftrightarrow> (65 \<le> c \<and> c \<le> 90) \<or> (48 \<le> c \<and> c \<le> 57)"

definition norm_key :: "ucd \<Rightarrow> ustr \<Rightarrow> ustr" where
  "norm_key U s =
     (let s1 = upper U (strip_accents U (norm_cell (PyStr s)));
          s2 = remove_cp 46 s1
      in filter key_char s2)"

section \<open>Header Matcher\<close>

text \<open>The six canonical headers, in the order of \<^verbatim>\<open>CANON_HEADERS\<close> and of the keys of
  \<^verbatim>\<open>HDR_KEYS\<close>.\<close>

datatype header = ITEM | COD_BK | COD_CLIENTE | DESCRICAO | QUANT | UN_dot

definition CANON_HEADERS :: "header list" where
  "CANON_HEADERS = [ITEM, COD_BK, COD_CLIENTE, DESCRICAO, QUANT, UN_dot]"

definition HDR_KEYS :: "(header \<times> ustr list) list" where
  "HDR_KEYS =
     [(ITEM, [asc ''ITEM'']),
      (COD_BK, [asc ''CODBK'', asc ''CODIGOBK'', asc ''CDBK'']),
      (COD_CLIENTE, [asc ''CODCLIENTE'', asc ''CODIGOCLIENTE'', asc ''CDCLIENTE'']),
      (DESCRICAO, [asc ''DESCRICAO'', asc ''DESCR'', asc ''DESCRI'', asc ''MATERIAL'', asc ''NOME'']),
      (QUANT, [asc ''QUANT'', asc ''QUANTIDADE'', asc ''QTD'', asc ''QTDE'']),
      (UN_dot, [asc ''UN'', asc ''UND'', asc ''UNID'', asc ''UNIDADE''])]"

type_synonym hmapping = "header \<rightharpoonup> nat"

text \<open>The body of the loop over \<^verbatim>\<open>HDR_KEYS.items()\<close>, for column \<open>i\<close> with key \<open>k\<close>.\<close>

definition header_step :: "nat \<Rightarrow> ustr \<Rightarrow> header \<times> ustr list \<Rightarrow> hmapping \<Rightarrow> hmapping" where
  "header_step i k hv found =
     (case hv of (h, variants) \<Rightarrow>
        if found h \<noteq> None then found
        else if k \<in> set variants then found(h \<mapsto> i)
        else
          let f1 = (if h = DESCRICAO \<and> py_in (asc ''DESCR'') k then found(h \<mapsto> i) else found);
              f2 = (if h = QUANT \<and> (py_in (asc ''QUANT'') k \<or> py_in (asc ''QTD'') k)
                    then f1(h \<mapsto> i) else f1);
              f3 = (if h = COD_BK \<and> (py_in (asc ''BK'') k \<and> py_in (asc ''COD'') k)
                    then f2(h \<mapsto> i) else f2);
              f4 = (if h = COD_CLIENTE \<and> (py_in (asc ''CLIENTE'') k \<and> py_in (asc ''COD'') k)
                    then f3(h \<mapsto> i) else f3)
          in f4)"

definition column_step :: "nat \<times> ustr \<Rightarrow> hmapping \<Rightarrow> hmapping" where
  "column_step ik found =
     (case ik of (i, k) \<Rightarrow> if k = [] then found else fold (header_step i k) HDR_KEYS found)"

definition looks_header_row :: "ucd \<Rightarrow> ustr list \<Rightarrow> hmapping option" where
  "looks_header_row U row =
     (let keys = map (norm_key U) row;
          found = fold column_step (enumerate 0 keys) Map.empty
      in if list_all (\<lambda>h. found h \<noteq> None) CANON_HEADERS then Some found else None)"

section \<open>Title Locator\<close>

definition letter_class :: "cp \<Rightarrow> bool" where
  \<comment> \<open>the character class of the letters: A-Z, a-z and U+00C0 to U+00FF\<close>
  "letter_class c \<longleftrightarrow> (65 \<le> c \<and> c \<le> 90) \<or> (97 \<le> c \<and> c \<le> 122) \<or> (192 \<le> c \<and> c \<le> 255)"

definition digit_or_nonword :: "ucd \<Rightarrow> cp \<Rightarrow> bool" where
  \<comment> \<open>the character class \<^verbatim>\<open>[0-9\W]\<close>; a word character is alphanumeric or the underscore\<close>
  "digit_or_nonword U c \<longleftrightarrow> (48 \<le> c \<and> c \<le> 57) \<or> \<not> (isalnum U c \<or> c = 95)"

definition bad :: "ustr list" where
  "bad = [asc ''ITEM'', asc ''COD'', [67, 211, 68], asc ''CLIENTE'', asc ''DESCR'', asc ''DESCRI'',
          asc ''QUANT'', asc ''UN'']"

definition is_candidate_title :: "ucd \<Rightarrow> ustr \<Rightarrow> bool" where
  "is_candidate_title U text =
     (let t = norm_cell (PyStr text) in
      if length t < 4 then False
      else if \<not> list_ex letter_class t then False
      else
        let u = upper U (strip_accents U t) in
        if list_ex (\<lambda>b. py_in b u) bad then False
        else if t \<noteq> [] \<and> list_all (digit_or_nonword U) t then False
        else True)"

text \<open>
  \<^verbatim>\<open>candidates.sort(reverse=True, key=...)\<close>: Python reverses the list, sorts it stably
  in ascending order and reverses it again, so equal keys keep their original order.
\<close>

definition sort_reverse :: "('a \<Rightarrow> nat) \<Rightarrow> 'a list \<Rightarrow> 'a list" where
  "sort_reverse f xs = rev (sort_key f (rev xs))"

definition candidates_of_row :: "ucd \<Rightarrow> ustr list \<Rightarrow> (nat \<times> ustr) list" where
  "candidates_of_row U row =
     concat (map (\<lambda>val. let txt = norm_cell (PyStr val)
                         in if is_candidate_title U txt then [(length txt, txt)] else []) row)"

definition find_title_near :: "ucd \<Rightarrow> ustr list list \<Rightarrow> nat \<Rightarrow> ustr" where
  "find_title_near U matrix header_row_idx =
     (let r0 = max 0 (int header_row_idx - 3);
          r1 = min (int (length matrix) - 1) (int header_row_idx + 3);
          candidates = concat (map (\<lambda>r. candidates_of_row U (matrix ! nat r)) [r0..r1])
      in if candidates = [] then []
         else (case sort_reverse fst candidates of c # _ \<Rightarrow> snd c | [] \<Rightarrow> []))"

section \<open>Block Parser\<close>

text \<open>
  The raw sheet is a pandas DataFrame: a rectangular table, each of whose rows has
  \<^verbatim>\<open>shape[1]\<close> cells. Rows given shorter are filled with NaN and longer ones cut, as
  pandas does when it builds the frame.
\<close>

record dataframe =
  df_rows :: "pyval list list"
  shape1 :: nat

definition values_tolist :: "dataframe \<Rightarrow> pyval list list" where
  "values_tolist df = map (\<lambda>r. take (shape1 df) (r @ replicate (shape1 df) PyNaN)) (df_rows df)"

record detail_row =
  d_ARQUIVO_EXCEL :: ustr
  d_ABA :: ustr
  d_DESENHO :: ustr
  d_BLOCO_TABELA :: nat
  d_ITEM :: ustr
  d_COD_BK :: ustr
  d_COD_CLIENTE :: ustr
  d_DESCRICAO :: ustr
  d_QUANT :: ustr
  d_UN :: ustr

text \<open>The per-sheet values that the loops of \<^verbatim>\<open>parse_blocks\<close> read and never change.\<close>

record sheet =
  s_ucd :: ucd
  s_matrix :: "ustr list list"
  s_max_cols :: nat
  s_fonte_nome :: ustr
  s_sheet_name :: ustr
  s_fallback_title :: ustr

definition py_or :: "ustr \<Rightarrow> ustr \<Rightarrow> ustr" where
  "py_or a b = (if a \<noteq> [] then a else b)"

definition getcol :: "sheet \<Rightarrow> hmapping \<Rightarrow> ustr list \<Rightarrow> header \<Rightarrow> ustr" where
  \<comment> \<open>\<^verbatim>\<open>r[mapping[h]] if mapping[h] < max_cols else ""\<close>\<close>
  "getcol S mapping r h = (if the (mapping h) < s_max_cols S then r ! the (mapping h) else [])"

definition is_blank_row :: "ustr list \<Rightarrow> bool" where
  "is_blank_row row = list_all (\<lambda>c. norm_cell (PyStr c) = []) row"

definition make_row :: "sheet \<Rightarrow> ustr \<Rightarrow> nat \<Rightarrow> hmapping \<Rightarrow> ustr list \<Rightarrow> ustr \<Rightarrow> detail_row" where
  "make_row S title bloco_n mapping r desc =
     \<lparr> d_ARQUIVO_EXCEL = s_fonte_nome S,
       d_ABA = s_sheet_name S,
       d_DESENHO = title,
       d_BLOCO_TABELA = bloco_n,
       d_ITEM = getcol S mapping r ITEM,
       d_COD_BK = getcol S mapping r COD_BK,
       d_COD_CLIENTE = getcol S mapping r COD_CLIENTE,
       d_DESCRICAO = desc,
       d_QUANT = getcol S mapping r QUANT,
       d_UN = getcol S mapping r UN_dot \<rparr>"

text \<open>What the inner loop does with a row that is neither a header nor blank.\<close>

definition data_row ::
  "sheet \<Rightarrow> ustr \<Rightarrow> nat \<Rightarrow> hmapping \<Rightarrow> ustr list \<Rightarrow> detail_row list \<Rightarrow> detail_row list" where
  "data_row S title bloco_n mapping r rows_out =
     (let desc = getcol S mapping r DESCRICAO
      in if norm_cell (PyStr desc) \<noteq> []
         then rows_out @ [make_row S title bloco_n mapping r desc]
         else rows_out)"

text \<open>
  The inner \<^verbatim>\<open>while\<close> of \<^verbatim>\<open>parse_blocks\<close>, from row \<open>i\<close> with the given blank streak. It
  returns the row index and the output rows at the moment the loop is left, by either
  \<^verbatim>\<open>break\<close> or the end of the matrix.
\<close>

function inner_loop ::
  "sheet \<Rightarrow> ustr \<Rightarrow> nat \<Rightarrow> hmapping \<Rightarrow> nat \<Rightarrow> nat \<Rightarrow> detail_row list \<Rightarrow> nat \<times> detail_row list" where
  "inner_loop S title bloco_n mapping i blank_streak rows_out =
     (if i < length (s_matrix S) then
        let r = s_matrix S ! i in
        if looks_header_row (s_ucd S) r \<noteq> None then (i, rows_out)
        else if is_blank_row r then
          (if blank_streak + 1 \<ge> 2 then (i, rows_out)
           else inner_loop S title bloco_n mapping (i + 1) (blank_streak + 1) rows_out)
        else inner_loop S title bloco_n mapping (i + 1) 0 (data_row S title bloco_n mapping r rows_out)
      else (i, rows_out))"
  by pat_completeness auto
termination
  by (relation "measure (\<lambda>(S, title, bloco_n, mapping, i, blank_streak, rows_out). length (s_matrix S) - i)")
     auto

declare inner_loop.simps [simp del]

text \<open>
  One iteration of the outer \<^verbatim>\<open>while\<close>, on the loop variables \<open>(i, bloco_n, rows_out)\<close>,
  and the loop itself.
\<close>

definition outer_body :: "sheet \<Rightarrow> nat \<times> nat \<times> detail_row list \<Rightarrow> nat \<times> nat \<times> detail_row list" where
  "outer_body S st =
     (case st of (i, bloco_n, rows_out) \<Rightarrow>
        (case looks_header_row (s_ucd S) (s_matrix S ! i) of
           Some mapping \<Rightarrow>
             let bloco_n' = bloco_n + 1;
                 title = py_or (find_title_near (s_ucd S) (s_matrix S) i) (s_fallback_title S)
             in (case inner_loop S title bloco_n' mapping (i + 1) 0 rows_out of
                   (i', rows_out') \<Rightarrow> (i', bloco_n', rows_out'))
         | None \<Rightarrow> (i + 1, bloco_n, rows_out)))"

function outer_loop :: "sheet \<Rightarrow> nat \<times> nat \<times> detail_row list \<Rightarrow> nat \<times> nat \<times> detail_row list" where
  "outer_loop S st = (if fst st < length (s_matrix S) then outer_loop S (outer_body S st) else st)"
  by pat_completeness auto
termination
proof (relation "measure (\<lambda>(S, st). length (s_matrix S) - fst st)")
  show "wf (measure (\<lambda>(S, st). length (s_matrix S) - fst st))"
    by simp
next
  fix S :: sheet and st :: "nat \<times> nat \<times> detail_row list"
  assume lt: "fst st < length (s_matrix S)"
  have inner: "i \<le> fst (inner_loop S title bloco_n mapping i blank_streak rows_out)"
    for title bloco_n mapping i blank_streak rows_out
  proof (induction S title bloco_n mapping i blank_streak rows_out rule: inner_loop.induct)
    case (1 S title bloco_n mapping i blank_streak rows_out)
    show ?case
      using "1.IH"
      by (subst inner_loop.simps) (auto simp: Let_def intro: Suc_leD)
  qed
  obtain i bloco_n rows_out where st: "st = (i, bloco_n, rows_out)"
    by (cases st)
  have "fst st < fst (outer_body S st)"
  proof (cases "looks_header_row (s_ucd S) (s_matrix S ! i)")
    case None
    then show ?thesis by (simp add: outer_body_def st)
  next
    case (Some mapping)
    let ?title = "py_or (find_title_near (s_ucd S) (s_matrix S) i) (s_fallback_title S)"
    have "Suc i \<le> fst (inner_loop S ?title (Suc bloco_n) mapping (Suc i) 0 rows_out)"
      by (rule inner)
    then show ?thesis
      by (auto simp: outer_body_def st Some split: prod.splits)
  qed
  with lt show "((S, outer_body S st), (S, st)) \<in> measure (\<lambda>(S, st). length (s_matrix S) - fst st)"
    by simp
qed

declare outer_loop.simps [simp del]

definition sheet_of :: "ucd \<Rightarrow> dataframe \<Rightarrow> ustr \<Rightarrow> ustr \<Rightarrow> ustr \<Rightarrow> sheet" where
  "sheet_of U df_raw fonte_nome sheet_name fallback_title =
     (let matrix = map (map norm_cell) (values_tolist df_raw);
          max_cols = shape1 df_raw
      in \<lparr> s_ucd = U, s_matrix = matrix, s_max_cols = max_cols, s_fonte_nome = fonte_nome,
           s_sheet_name = sheet_name, s_fallback_title = fallback_title \<rparr>)"

definition parse_blocks :: "ucd \<Rightarrow> dataframe \<Rightarrow> ustr \<Rightarrow> ustr \<Rightarrow> ustr \<Rightarrow> detail_row list" where
  "parse_blocks U df_raw fonte_nome sheet_name fallback_title =
     snd (snd (outer_loop (sheet_of U df_raw fonte_nome sheet_name fallback_title) (0, 0, [])))"

section \<open>Floating-point numbers\<close>

text \<open>
  A Python \<^verbatim>\<open>float\<close> is an IEEE 754 binary64 number: a finite value \<open>m \<times> 2\<^sup>p\<close> with
  \<open>\<bar>m\<bar> < 2\<^sup>5\<^sup>3\<close> and \<open>- 1074 \<le> p \<le> 971\<close>, an infinity, or NaN. A finite float is
  represented by the rational number it equals. The sign of a zero is not represented:
  \<^verbatim>\<open>==\<close> does not see it, and a sum that starts from \<^verbatim>\<open>0.0\<close> is never \<^verbatim>\<open>-0.0\<close>.

  Every arithmetic operation and every conversion from decimal text returns the float
  nearest to the exact result, ties going to the even mantissa, and an infinity when
  that float would reach \<open>2\<^sup>1\<^sup>0\<^sup>2\<^sup>4\<close>.
\<close>

datatype pyfloat = Finite rat | PosInf | NegInf | NaN

definition pow2 :: "int \<Rightarrow> rat" where
  "pow2 k = (if 0 \<le> k then 2 ^ nat k else 1 / 2 ^ nat (- k))"

definition ilog2 :: "rat \<Rightarrow> int" where
  \<comment> \<open>for \<open>q > 0\<close>, the \<open>e\<close> with \<open>2\<^sup>e \<le> q < 2\<^sup>e\<^sup>+\<^sup>1\<close>\<close>
  "ilog2 q = (case quotient_of q of (a, b) \<Rightarrow>
                let k = bitlen a - bitlen b in if pow2 k \<le> q then k else k - 1)"

definition round_half_even :: "rat \<Rightarrow> int" where
  "round_half_even x =
     (let f = \<lfloor>x\<rfloor>; r = x - of_int f
      in if r < 1 / 2 then f else if 1 / 2 < r then f + 1 else if even f then f else f + 1)"

text \<open>
  \<open>p\<close> is the exponent of the last mantissa bit. The rounded value \<open>m \<times> 2\<^sup>p\<close> reaches
  \<open>2\<^sup>1\<^sup>0\<^sup>2\<^sup>4\<close> exactly when \<open>p > 971\<close>, or \<open>p = 971\<close> and the mantissa was rounded up to
  \<open>2\<^sup>5\<^sup>3\<close>.
\<close>

definition round64 :: "rat \<Rightarrow> pyfloat" where
  "round64 q =
     (if q = 0 then Finite 0
      else
        let e = ilog2 \<bar>q\<bar>;
            p = max (e - 52) (- 1074);
            m = round_half_even (q / pow2 p)
        in if 971 < p \<or> (p = 971 \<and> 2 ^ 53 \<le> \<bar>m\<bar>) then (if 0 < q then PosInf else NegInf)
           else Finite (of_int m * pow2 p))"

fun fadd :: "pyfloat \<Rightarrow> pyfloat \<Rightarrow> pyfloat" where
  "fadd (Finite a) (Finite b) = round64 (a + b)"
| "fadd NaN _ = NaN"
| "fadd _ NaN = NaN"
| "fadd PosInf NegInf = NaN"
| "fadd NegInf PosInf = NaN"
| "fadd PosInf _ = PosInf"
| "fadd _ PosInf = PosInf"
| "fadd NegInf _ = NegInf"
| "fadd _ NegInf = NegInf"

fun fneg :: "pyfloat \<Rightarrow> pyfloat" where
  "fneg (Finite a) = Finite (- a)"
| "fneg PosInf = NegInf"
| "fneg NegInf = PosInf"
| "fneg NaN = NaN"

text \<open>Python's \<^verbatim>\<open>==\<close> on floats: NaN equals nothing, itself included.\<close>

definition float_eq :: "pyfloat \<Rightarrow> pyfloat \<Rightarrow> bool" where
  "float_eq x y \<longleftrightarrow> x \<noteq> NaN \<and> x = y"

subsection \<open>The constructor \<^verbatim>\<open>float(s)\<close> on a string\<close>

text \<open>
  CPython first maps the string to ASCII: ASCII characters stay, other whitespace
  becomes a space, other decimal digits become ASCII digits and anything else becomes a
  question mark (and ends the string, which no number survives). Underscores are allowed
  only between two digits and are removed. Then white space is stripped from both ends and
  the rest must be, as a whole, an optional sign followed by \<^verbatim>\<open>inf\<close>,
  \<^verbatim>\<open>infinity\<close> or \<^verbatim>\<open>nan\<close> in any case, or by a decimal number: digits with at most
  one point and at least one digit, then optionally \<^verbatim>\<open>e\<close> or \<^verbatim>\<open>E\<close>, an optional sign
  and at least one digit. A string of any other form raises \<^verbatim>\<open>ValueError\<close>.
\<close>

datatype py_error = ValueError

definition is_digit :: "cp \<Rightarrow> bool" where
  "is_digit c \<longleftrightarrow> 48 \<le> c \<and> c \<le> 57"

definition to_ascii :: "ucd \<Rightarrow> cp \<Rightarrow> cp" where
  "to_ascii U c =
     (if c < 128 then c
      else if isspace c then 32
      else (case decimal_tab U c of Some d \<Rightarrow> 48 + d | None \<Rightarrow> 63))"

fun underscores_ok :: "cp \<Rightarrow> ustr \<Rightarrow> bool" where
  "underscores_ok prev [] = (prev \<noteq> 95)"
| "underscores_ok prev (c # cs) =
     ((if c = 95 then is_digit prev else \<not> (prev = 95 \<and> \<not> is_digit c)) \<and> underscores_ok c cs)"

definition ascii_space :: "cp \<Rightarrow> bool" where
  \<comment> \<open>\<^verbatim>\<open>Py_ISSPACE\<close>\<close>
  "ascii_space c \<longleftrightarrow> (9 \<le> c \<and> c \<le> 13) \<or> c = 32"

definition ascii_lower :: "cp \<Rightarrow> cp" where
  "ascii_lower c = (if 65 \<le> c \<and> c \<le> 90 then c + 32 else c)"

definition digits_val :: "ustr \<Rightarrow> nat" where
  "digits_val ds = foldl (\<lambda>a c. 10 * a + (c - 48)) 0 ds"

definition split_sign :: "ustr \<Rightarrow> bool \<times> ustr" where
  \<comment> \<open>whether a minus sign was read, and the rest\<close>
  "split_sign s = (case s of c # cs \<Rightarrow> if c = 45 then (True, cs) else if c = 43 then (False, cs)
                                       else (False, s)
                   | [] \<Rightarrow> (False, []))"

definition pow10 :: "int \<Rightarrow> rat" where
  "pow10 k = (if 0 \<le> k then 10 ^ nat k else 1 / 10 ^ nat (- k))"

definition parse_exponent :: "ustr \<Rightarrow> int option" where
  \<comment> \<open>the text after the mantissa: nothing, or an exponent part\<close>
  "parse_exponent s =
     (case s of [] \<Rightarrow> Some 0
      | c # cs \<Rightarrow>
          if c = 101 \<or> c = 69 then
            (case split_sign cs of (neg, ds) \<Rightarrow>
               if ds \<noteq> [] \<and> list_all is_digit ds
               then Some (if neg then - int (digits_val ds) else int (digits_val ds))
               else None)
          else None)"

definition parse_decimal :: "ustr \<Rightarrow> rat option" where
  \<comment> \<open>an unsigned decimal number, as the exact rational it denotes\<close>
  "parse_decimal s =
     (let ip = takeWhile is_digit s;
          r1 = dropWhile is_digit s;
          fp = (case r1 of c # cs \<Rightarrow> if c = 46 then takeWhile is_digit cs else [] | [] \<Rightarrow> []);
          r2 = (case r1 of c # cs \<Rightarrow> if c = 46 then dropWhile is_digit cs else r1 | [] \<Rightarrow> [])
      in if ip = [] \<and> fp = [] then None
         else (case parse_exponent r2 of
                 None \<Rightarrow> None
               | Some x \<Rightarrow> Some (of_nat (digits_val (ip @ fp)) * pow10 (x - int (length fp)))))"

definition parse_abs :: "ustr \<Rightarrow> pyfloat option" where
  "parse_abs s =
     (let l = map ascii_lower s in
      if l = asc ''inf'' \<or> l = asc ''infinity'' then Some PosInf
      else if l = asc ''nan'' then Some NaN
      else map_option round64 (parse_decimal s))"

definition py_float :: "ucd \<Rightarrow> ustr \<Rightarrow> py_error + pyfloat" where
  "py_float U s =
     (let a = map (to_ascii U) s in
      if \<not> underscores_ok 0 a then Inl ValueError
      else
        let b = remove_cp 95 a;
            t = rev (dropWhile ascii_space (rev (dropWhile ascii_space b)))
        in (case split_sign t of (neg, r) \<Rightarrow>
              (case parse_abs r of
                 None \<Rightarrow> Inl ValueError
               | Some v \<Rightarrow> Inr (if neg then fneg v else v))))"

text \<open>\<^verbatim>\<open>to_float_br\<close>; the \<^verbatim>\<open>except\<close> clause turns every failure of \<^verbatim>\<open>float\<close> into
  \<^verbatim>\<open>0.0\<close>.\<close>

definition to_float_br :: "ucd \<Rightarrow> pyval \<Rightarrow> pyfloat" where
  "to_float_br U x =
     (let s = norm_cell x in
      if s = [] then Finite 0
      else
        let s1 = remove_cp 32 s;
            s2 = (if py_in (asc '','') s1 then replace_cp 44 46 (remove_cp 46 s1) else s1)
        in (case py_float U s2 of Inr v \<Rightarrow> v | Inl _ \<Rightarrow> Finite 0))"

section \<open>Consolidator\<close>

text \<open>\<^verbatim>\<open>str(n)\<close> for a non-negative integer.\<close>

fun str_nat :: "nat \<Rightarrow> ustr" where
  "str_nat n = (if n < 10 then [48 + n] else str_nat (n div 10) @ [48 + n mod 10])"

declare str_nat.simps [simp del]

record agg_entry =
  a_COD_BK :: ustr
  a_COD_CLIENTE :: ustr
  a_UN :: ustr
  QSUM :: pyfloat
  FONTES :: "ustr set"
  DESENHOS :: "ustr set"

record cons_row =
  c_COD_BK :: ustr
  c_COD_CLIENTE :: ustr
  c_DESCRICAO :: ustr
  c_QUANT :: pyfloat
  c_UN :: ustr
  c_DESENHOS :: ustr
  c_ARQUIVOS_ORIGEM :: ustr

definition new_entry :: "detail_row \<Rightarrow> agg_entry" where
  "new_entry row =
     \<lparr> a_COD_BK = d_COD_BK row, a_COD_CLIENTE = d_COD_CLIENTE row, a_UN = d_UN row,
       QSUM = Finite 0, FONTES = {}, DESENHOS = {} \<rparr>"

definition fonte_of :: "detail_row \<Rightarrow> ustr" where
  \<comment> \<open>the f-string \<^verbatim>\<open>f'{ARQUIVO_EXCEL} | {ABA} | T{BLOCO_TABELA}'\<close>\<close>
  "fonte_of row =
     d_ARQUIVO_EXCEL row @ asc '' | '' @ d_ABA row @ asc '' | T'' @ str_nat (d_BLOCO_TABELA row)"

text \<open>
  The body of the loop over the rows, on the pair of \<^verbatim>\<open>agg\<close> and \<^verbatim>\<open>order\<close>. The entry
  read back after the insertion is the one just inserted or the one already there.
\<close>

definition consolidate_row ::
  "ucd \<Rightarrow> detail_row \<Rightarrow> (ustr \<rightharpoonup> agg_entry) \<times> ustr list \<Rightarrow> (ustr \<rightharpoonup> agg_entry) \<times> ustr list" where
  "consolidate_row U row st =
     (case st of (agg, order) \<Rightarrow>
        let desc = strip (d_DESCRICAO row) in
        if desc = [] then (agg, order)
        else
          let order1 = (if agg desc = None then order @ [desc] else order);
              d0 = (case agg desc of None \<Rightarrow> new_entry row | Some d \<Rightarrow> d);
              d1 = d0\<lparr>QSUM := fadd (QSUM d0) (to_float_br U (PyStr (d_QUANT row)))\<rparr>;
              d2 = d1\<lparr>FONTES := insert (fonte_of row) (FONTES d1)\<rparr>;
              d3 = (if strip (d_DESENHO row) \<noteq> []
                    then d2\<lparr>DESENHOS := insert (strip (d_DESENHO row)) (DESENHOS d2)\<rparr>
                    else d2)
          in (agg(desc \<mapsto> d3), order1))"

definition out_row :: "ustr \<Rightarrow> agg_entry \<Rightarrow> cons_row" where
  "out_row desc d =
     \<lparr> c_COD_BK = a_COD_BK d,
       c_COD_CLIENTE = a_COD_CLIENTE d,
       c_DESCRICAO = desc,
       c_QUANT = QSUM d,
       c_UN = a_UN d,
       c_DESENHOS = join (asc ''; '') (sorted_list_of_set (DESENHOS d)),
       c_ARQUIVOS_ORIGEM = join (asc ''; '') (sorted_list_of_set (FONTES d)) \<rparr>"

definition consolidate_loop :: "ucd \<Rightarrow> detail_row list \<Rightarrow> (ustr \<rightharpoonup> agg_entry) \<times> ustr list" where
  "consolidate_loop U df_detail = fold (consolidate_row U) df_detail (Map.empty, [])"

definition consolidate :: "ucd \<Rightarrow> detail_row list \<Rightarrow> cons_row list" where
  "consolidate U df_detail =
     (if df_detail = [] then []
      else (case consolidate_loop U df_detail of
              (agg, order) \<Rightarrow> map (\<lambda>desc. out_row desc (the (agg desc))) order))"

section \<open>What it means for a column to satisfy a header\<close>

text \<open>
  The two ways in which the loop body assigns a column to a header: the key is one of the
  header's variants in \<^verbatim>\<open>HDR_KEYS\<close>, or it passes the header's ``contains'' test.
\<close>

definition variants :: "header \<Rightarrow> ustr list" where
  "variants h = (case map_of HDR_KEYS h of Some vs \<Rightarrow> vs | None \<Rightarrow> [])"

definition fallback :: "header \<Rightarrow> ustr \<Rightarrow> bool" where
  "fallback h k \<longleftrightarrow>
     (h = DESCRICAO \<and> py_in (asc ''DESCR'') k) \<or>
     (h = QUANT \<and> (py_in (asc ''QUANT'') k \<or> py_in (asc ''QTD'') k)) \<or>
     (h = COD_BK \<and> (py_in (asc ''BK'') k \<and> py_in (asc ''COD'') k)) \<or>
     (h = COD_CLIENTE \<and> (py_in (asc ''CLIENTE'') k \<and> py_in (asc ''COD'') k))"

definition satisfies :: "header \<Rightarrow> ustr \<Rightarrow> bool" where
  "satisfies h k \<longleftrightarrow> k \<in> set (variants h) \<or> fallback h k"

fun leftmost :: "('a \<Rightarrow> bool) \<Rightarrow> 'a list \<Rightarrow> nat option" where
  "leftmost P [] = None"
| "leftmost P (x # xs) = (if P x then Some 0 else map_option Suc (leftmost P xs))"

section \<open>The candidates of the Title Locator\<close>

text \<open>
  The texts that \<^verbatim>\<open>find_title_near\<close> collects, in the order in which its two loops meet
  them: the rows from \<open>header_row_idx - 3\<close> (or 0) to \<open>header_row_idx + 3\<close> (or the last
  row), each from left to right.
\<close>

definition title_candidates :: "ucd \<Rightarrow> ustr list list \<Rightarrow> nat \<Rightarrow> ustr list" where
  "title_candidates U matrix header_row_idx =
     concat (map (\<lambda>r. filter (is_candidate_title U) (map (\<lambda>val. norm_cell (PyStr val)) (matrix ! r)))
                 [header_row_idx - 3 ..< min (length matrix) (header_row_idx + 4)])"

section \<open>A table for the Latin-1 supplement\<close>

text \<open>
  The entries of the Unicode character database (version 14) for U+0080 to U+00FF and for
  the characters their decompositions produce. It is used to run the functions on
  concrete Portuguese text; no general theorem depends on it.
\<close>

definition latin1_nfkd :: "(cp \<times> cp list) list" where
  "latin1_nfkd =
     [(160, [32]), (168, [32, 776]), (170, [97]), (175, [32, 772]), (178, [50]), (179, [51]),
      (180, [32, 769]), (181, [956]), (184, [32, 807]), (185, [49]), (186, [111]),
      (188, [49, 8260, 52]), (189, [49, 8260, 50]), (190, [51, 8260, 52]),
      (192, [65, 768]), (193, [65, 769]), (194, [65, 770]), (195, [65, 771]), (196, [65, 776]),
      (197, [65, 778]), (199, [67, 807]), (200, [69, 768]), (201, [69, 769]), (202, [69, 770]),
      (203, [69, 776]), (204, [73, 768]), (205, [73, 769]), (206, [73, 770]), (207, [73, 776]),
      (209, [78, 771]), (210, [79, 768]), (211, [79, 769]), (212, [79, 770]), (213, [79, 771]),
      (214, [79, 776]), (217, [85, 768]), (218, [85, 769]), (219, [85, 770]), (220, [85, 776]),
      (221, [89, 769]), (224, [97, 768]), (225, [97, 769]), (226, [97, 770]), (227, [97, 771]),
      (228, [97, 776]), (229, [97, 778]), (231, [99, 807]), (232, [101, 768]), (233, [101, 769]),
      (234, [101, 770]), (235, [101, 776]), (236, [105, 768]), (237, [105, 769]),
      (238, [105, 770]), (239, [105, 776]), (241, [110, 771]), (242, [111, 768]),
      (243, [111, 769]), (244, [111, 770]), (245, [111, 771]), (246, [111, 776]),
      (249, [117, 768]), (250, [117, 769]), (251, [117, 770]), (252, [117, 776]),
      (253, [121, 769]), (255, [121, 776])]"

definition latin1_upper :: "(cp \<times> cp list) list" where
  "latin1_upper =
     [(181, [924]), (223, [83, 83]), (224, [192]), (225, [193]), (226, [194]), (227, [195]),
      (228, [196]), (229, [197]), (230, [198]), (231, [199]), (232, [200]), (233, [201]),
      (234, [202]), (235, [203]), (236, [204]), (237, [205]), (238, [206]), (239, [207]),
      (240, [208]), (241, [209]), (242, [210]), (243, [211]), (244, [212]), (245, [213]),
      (246, [214]), (248, [216]), (249, [217]), (250, [218]), (251, [219]), (252, [220]),
      (253, [221]), (254, [222]), (255, [376]), (956, [924])]"

definition latin1 :: ucd where
  "latin1 =
     \<lparr> nfkd_tab = (\<lambda>c. case map_of latin1_nfkd c of Some d \<Rightarrow> d | None \<Rightarrow> [c]),
       combining_tab = (\<lambda>c. c \<in> set [768, 769, 770, 771, 772, 776, 778, 807]),
       upper_tab = (\<lambda>c. case map_of latin1_upper c of Some d \<Rightarrow> d | None \<Rightarrow> [c]),
       alnum_tab = (\<lambda>c. c \<in> set [170, 178, 179, 181, 185, 186, 188, 189, 190] \<or>
                          (192 \<le> c \<and> c \<le> 255 \<and> c \<noteq> 215 \<and> c \<noteq> 247)),
       decimal_tab = (\<lambda>c. None) \<rparr>"

section \<open>Predicates on the output of the Block Parser\<close>

definition is_header :: "sheet \<Rightarrow> ustr list \<Rightarrow> bool" where
  "is_header S r \<longleftrightarrow> looks_header_row (s_ucd S) r \<noteq> None"

text \<open>What holds of the output rows while the block counter is \<open>n\<close>.\<close>

definition blocks_ok :: "nat \<Rightarrow> detail_row list \<Rightarrow> bool" where
  "blocks_ok n rows \<longleftrightarrow>
     (\<forall>d\<in>set rows. 1 \<le> d_BLOCO_TABELA d \<and> d_BLOCO_TABELA d \<le> n \<and>
                     norm_cell (PyStr (d_DESCRICAO d)) \<noteq> []) \<and>
     sorted (map d_BLOCO_TABELA rows) \<and>
     (\<forall>d\<in>set rows. \<forall>d'\<in>set rows.
        d_BLOCO_TABELA d = d_BLOCO_TABELA d' \<longrightarrow> d_DESENHO d = d_DESENHO d')"

section \<open>Example sheets\<close>

definition header6 :: "ustr list" where
  \<comment> \<open>the six canonical headers as written in CANON_HEADERS, accents included\<close>
  "header6 =
     [asc ''ITEM'', asc ''C'' @ [211] @ asc ''D. BK'', asc ''C'' @ [211] @ asc ''D. CLIENTE'',
      asc ''DESCRI'' @ [199, 195] @ asc ''O'', asc ''QUANT.'', asc ''UN.'']"

definition header7 :: "ustr list" where
  \<comment> \<open>the same with a second quantity column, QTD\<close>
  "header7 = header6 @ [asc ''QTD'']"

text \<open>
  A sheet with two tables. Row 0 holds a title, row 1 a header, rows 2 to 5 the body of the
  first table (a data row, one blank row, a data row, a row without description), row 6 a
  second header, row 7 a data row, rows 8 and 9 are blank and row 10 is text after the end
  of the second table.
\<close>

definition example_df :: dataframe where
  "example_df =
     \<lparr> df_rows = map (map PyStr)
         [[asc ''SUPORTE PARA CHAVE'', [], [], [], [], []],
          header6,
          [asc ''1'', asc ''BK01'', asc ''C01'', asc ''Parafuso M8'', asc ''3,5'', asc ''UN''],
          [[], [], [], [], [], []],
          [asc ''2'', asc ''BK02'', asc ''C02'', asc ''Porca M8'', asc ''2'', asc ''UN''],
          [asc ''3'', asc ''BK03'', asc ''C03'', asc ''   '', asc ''1'', asc ''UN''],
          header6,
          [asc ''1'', asc ''BK01'', asc ''C01'', asc ''Parafuso M8'', asc ''1,5'', asc ''UN''],
          [[], [], [], [], [], []],
          [[], [], [], [], [], []],
          [asc ''4'', asc ''BK04'', asc ''C04'', asc ''Arruela'', asc ''7'', asc ''UN'']],
       shape1 = 6 \<rparr>"

definition example_sheet :: sheet where
  "example_sheet = sheet_of latin1 example_df (asc ''lista.xlsx'') (asc ''Plan1'') (asc ''SEM NOME'')"

section \<open>Properties of the Header Matcher\<close>

lemma leftmost_Some:
  "leftmost P xs = Some i \<longleftrightarrow> i < length xs \<and> P (xs ! i) \<and> (\<forall>j<i. \<not> P (xs ! j))"
proof (induction xs arbitrary: i)
  case Nil
  then show ?case by simp
next
  case (Cons x xs)
  show ?case
  proof (cases "P x")
    case True
    then show ?thesis by (cases i) auto
  next
    case False
    show ?thesis
    proof (cases i)
      case 0
      with False show ?thesis by simp
    next
      case (Suc i')
      have "(\<forall>j<Suc i'. \<not> P ((x # xs) ! j)) \<longleftrightarrow> (\<forall>j<i'. \<not> P (xs ! j))"
        using False by (auto simp: less_Suc_eq_0_disj)
      with False Suc show ?thesis by (auto simp: Cons.IH)
    qed
  qed
qed

lemma leftmost_None: "leftmost P xs = None \<longleftrightarrow> (\<forall>x\<in>set xs. \<not> P x)"
  by (induction xs) auto

lemma all_less_take:
  "i \<le> length xs \<Longrightarrow> (\<forall>j<i. \<not> P (xs ! j)) \<longleftrightarrow> list_all (\<lambda>x. \<not> P x) (take i xs)"
  by (auto simp: list_all_length)

lemma header_step_eq:
  "header_step i k (h, vs) found =
     (if found h = None \<and> (k \<in> set vs \<or> fallback h k) then found(h \<mapsto> i) else found)"
  by (auto simp: header_step_def fallback_def Let_def)

lemma satisfies_Nil [simp]: "\<not> satisfies h []"
  by (cases h) (simp_all add: satisfies_def variants_def HDR_KEYS_def fallback_def)

lemma fold_header_step_gen:
  "distinct (map fst kvs) \<Longrightarrow>
   fold (header_step i k) kvs found h =
     (if found h = None \<and> (\<exists>vs. map_of kvs h = Some vs \<and> (k \<in> set vs \<or> fallback h k))
      then Some i else found h)"
proof (induction kvs arbitrary: found)
  case Nil
  then show ?case by simp
next
  case (Cons kv kvs)
  obtain h' vs' where kv: "kv = (h', vs')" by (cases kv)
  from Cons.prems kv have nin: "map_of kvs h' = None" and d: "distinct (map fst kvs)"
    by (auto simp: map_of_eq_None_iff)
  show ?case
    unfolding kv fold_Cons comp_def Cons.IH [OF d] header_step_eq
    using nin by auto
qed

lemma distinct_HDR_KEYS: "distinct (map fst HDR_KEYS)"
  by (simp add: HDR_KEYS_def)

lemma map_of_HDR_KEYS: "map_of HDR_KEYS h = Some (variants h)"
  by (cases h) (simp_all add: variants_def HDR_KEYS_def del: list.map)

lemma fold_header_step:
  "fold (header_step i k) HDR_KEYS found h =
     (if found h = None \<and> satisfies h k then Some i else found h)"
  by (simp add: fold_header_step_gen [OF distinct_HDR_KEYS] map_of_HDR_KEYS satisfies_def)

lemma column_step_eq:
  "column_step (i, k) found h =
     (if found h = None \<and> satisfies h k then Some i else found h)"
  by (simp add: column_step_def fold_header_step)

lemma fold_column_step:
  "fold column_step (enumerate n ks) found h =
     (case found h of Some j \<Rightarrow> Some j
      | None \<Rightarrow> map_option (\<lambda>j. n + j) (leftmost (satisfies h) ks))"
proof (induction ks arbitrary: n found)
  case Nil
  then show ?case by (simp split: option.splits)
next
  case (Cons k ks)
  have *: "(\<lambda>j. Suc n + j) = (\<lambda>x. n + Suc x)" by auto
  show ?case
    by (simp add: Cons.IH column_step_eq option.map_comp comp_def * split: option.splits)
qed

lemma all_headers: "list_all P CANON_HEADERS \<longleftrightarrow> (\<forall>h. P h)"
proof
  assume a: "list_all P CANON_HEADERS"
  show "\<forall>h. P h"
  proof
    fix h
    from a show "P h" by (cases h) (simp_all add: CANON_HEADERS_def)
  qed
next
  assume "\<forall>h. P h"
  then show "list_all P CANON_HEADERS" by (simp add: list_all_iff)
qed

lemma looks_header_row_eq:
  "looks_header_row U row =
     (let found = (\<lambda>h. leftmost (satisfies h) (map (norm_key U) row))
      in if \<forall>h. found h \<noteq> None then Some found else None)"
proof -
  have "fold column_step (enumerate 0 (map (norm_key U) row)) Map.empty
          = (\<lambda>h. leftmost (satisfies h) (map (norm_key U) row))"
    by (rule ext) (simp add: fold_column_step option.map_ident cong: option.map_cong)
  then show ?thesis
    by (simp add: looks_header_row_def Let_def all_headers)
qed

lemma looks_header_row_Some:
  "looks_header_row U row = Some mapping \<Longrightarrow>
     mapping h = leftmost (satisfies h) (map (norm_key U) row) \<and> mapping h \<noteq> None"
  by (auto simp: looks_header_row_eq Let_def split: if_splits)

lemma looks_header_row_None:
  "looks_header_row U row = None \<longleftrightarrow> (\<exists>h. \<forall>c\<in>set row. \<not> satisfies h (norm_key U c))"
proof -
  have A: "(\<exists>h. leftmost (satisfies h) (map (norm_key U) row) = None)
        \<longleftrightarrow> (\<exists>h. \<forall>c\<in>set row. \<not> satisfies h (norm_key U c))"
    by (simp add: leftmost_None)
  have B: "looks_header_row U row = None
        \<longleftrightarrow> \<not> (\<forall>h. leftmost (satisfies h) (map (norm_key U) row) \<noteq> None)"
    unfolding looks_header_row_eq Let_def
    by (cases "\<forall>h. leftmost (satisfies h) (map (norm_key U) row) \<noteq> None") (simp_all only: if_True if_False option.simps simp_thms)
  show ?thesis
    by (simp only: B not_all not_not A)
qed

text \<open>
  C8. Each header is assigned to the leftmost column whose key satisfies it: the column of
  header \<open>h\<close> in the returned mapping is \<open>i\<close> exactly when column \<open>i\<close> satisfies \<open>h\<close> and
  no column to its left does. Columns further right never change the assignment.
\<close>

theorem looks_header_row_leftmost:
  "looks_header_row U row = Some mapping \<Longrightarrow>
     (mapping h = Some i \<longleftrightarrow>
        i < length row \<and> satisfies h (norm_key U (row ! i)) \<and>
        (\<forall>j<i. \<not> satisfies h (norm_key U (row ! j))))"
proof -
  assume "looks_header_row U row = Some mapping"
  then have "mapping h = leftmost (satisfies h) (map (norm_key U) row)"
    by (simp add: looks_header_row_Some)
  then show ?thesis
    by (auto simp: leftmost_Some)
qed

theorem looks_header_row_leftmost_witness:
  "\<exists>mapping. looks_header_row latin1 header7 = Some mapping \<and> mapping QUANT = Some 4 \<and>
     satisfies QUANT (norm_key latin1 (header7 ! 6))"
proof -
  have "looks_header_row latin1 header7 \<noteq> None"
    by code_simp
  then obtain mapping where m: "looks_header_row latin1 header7 = Some mapping"
    by auto
  have "4 < length header7 \<and> satisfies QUANT (norm_key latin1 (header7 ! 4)) \<and>
        list_all (\<lambda>k. \<not> satisfies QUANT k) (take 4 (map (norm_key latin1) header7))"
    by code_simp
  then have "4 < length header7 \<and> satisfies QUANT (norm_key latin1 (header7 ! 4)) \<and>
        (\<forall>j<4. \<not> satisfies QUANT (norm_key latin1 (header7 ! j)))"
    by (auto simp: list_all_length)
  with looks_header_row_leftmost [OF m, of QUANT 4] have "mapping QUANT = Some 4"
    by simp
  moreover have "satisfies QUANT (norm_key latin1 (header7 ! 6))"
    by code_simp
  ultimately show ?thesis using m by blast
qed


text \<open>
  C2. A mapping is returned only when each of the six headers is satisfied by some column,
  and the mapping then gives every header such a column; when some header is satisfied by
  no column the result is \<open>None\<close>. A mapping with fewer than six headers is never
  returned.
\<close>

theorem looks_header_row_all_or_nothing:
  "(case looks_header_row U row of
      Some mapping \<Rightarrow>
        (\<forall>h. \<exists>i<length row. mapping h = Some i \<and> satisfies h (norm_key U (row ! i)))
    | None \<Rightarrow> (\<exists>h. \<forall>i<length row. \<not> satisfies h (norm_key U (row ! i))))"
proof (cases "looks_header_row U row")
  case None
  then obtain h where "\<forall>c\<in>set row. \<not> satisfies h (norm_key U c)"
    by (auto simp: looks_header_row_None)
  then have "\<forall>i<length row. \<not> satisfies h (norm_key U (row ! i))"
    by simp
  with None show ?thesis by auto
next
  case (Some mapping)
  have "\<exists>i<length row. mapping h = Some i \<and> satisfies h (norm_key U (row ! i))" for h
  proof -
    from looks_header_row_Some [OF Some, of h]
    have a: "mapping h = leftmost (satisfies h) (map (norm_key U) row)" and b: "mapping h \<noteq> None"
      by blast+
    from b obtain i where "mapping h = Some i"
      by auto
    with a have i: "mapping h = Some i" "leftmost (satisfies h) (map (norm_key U) row) = Some i"
      by auto
    from i(2) have "i < length row \<and> satisfies h (norm_key U (row ! i))"
      by (auto simp: leftmost_Some)
    with i(1) show ?thesis by blast
  qed
  with Some show ?thesis by simp
qed

theorem looks_header_row_all_or_nothing_witness:
  "(\<exists>mapping. looks_header_row latin1 header7 = Some mapping \<and> dom mapping = UNIV) \<and>
   looks_header_row latin1 (butlast (butlast header7)) = None"
proof -
  have 1: "looks_header_row latin1 header7 \<noteq> None"
    by code_simp
  then obtain mapping where m: "looks_header_row latin1 header7 = Some mapping"
    by auto
  from looks_header_row_all_or_nothing [where U = latin1 and row = header7] m
  have "\<forall>h. \<exists>i<length header7. mapping h = Some i \<and> satisfies h (norm_key latin1 (header7 ! i))"
    by simp
  then have "dom mapping = UNIV"
    by (auto simp: dom_def)
  moreover have "looks_header_row latin1 (butlast (butlast header7)) = None"
    by code_simp
  ultimately show ?thesis using m by blast
qed

section \<open>Properties of the Text Normalizer\<close>

lemma sub_ws_Nil_iff: "sub_ws s = [] \<longleftrightarrow> s = []"
  by (cases s) auto

lemma strip_Nil_iff: "strip s = [] \<longleftrightarrow> (\<forall>c\<in>set s. isspace c)"
proof
  assume "strip s = []"
  then have "dropWhile isspace (rev (dropWhile isspace s)) = []"
    by (simp add: strip_def)
  then have "\<forall>c\<in>set (rev (dropWhile isspace s)). isspace c"
    unfolding dropWhile_eq_Nil_conv .
  then have "\<forall>c\<in>set (dropWhile isspace s). isspace c"
    by simp
  then have "dropWhile isspace s = []"
    by (metis hd_dropWhile list.set_sel(1))
  then show "\<forall>c\<in>set s. isspace c"
    unfolding dropWhile_eq_Nil_conv .
next
  assume "\<forall>c\<in>set s. isspace c"
  then have "dropWhile isspace s = []"
    unfolding dropWhile_eq_Nil_conv .
  then show "strip s = []"
    by (auto simp: strip_def dest: set_dropWhileD)
qed

lemma isspace_replace_nbsp: "isspace (if c = 160 then 32 else c) \<longleftrightarrow> isspace c"
  by (simp add: isspace_def)

lemma all_space_replace_nbsp:
  "(\<forall>c\<in>set (replace_cp 160 32 s). isspace c) \<longleftrightarrow> (\<forall>c\<in>set s. isspace c)"
  unfolding replace_cp_def by (induction s) (simp_all add: isspace_replace_nbsp)

lemma norm_cell_Nil_iff: "norm_cell (PyStr s) = [] \<longleftrightarrow> strip s = []"
  by (simp add: norm_cell_def sub_ws_Nil_iff strip_Nil_iff all_space_replace_nbsp)

lemma norm_key_blank: "norm_cell (PyStr c) = [] \<Longrightarrow> norm_key U c = []"
  by (simp add: norm_key_def upper_def strip_accents_def remove_cp_def)

lemma sub_ws_space: "c \<in> set (sub_ws s) \<Longrightarrow> isspace c \<Longrightarrow> c = 32"
  by (induction s rule: sub_ws.induct) (auto split: if_splits)

lemma sub_ws_hd:
  "s = [] \<or> \<not> isspace (hd s) \<Longrightarrow> sub_ws s = [] \<or> \<not> isspace (hd (sub_ws s))"
  by (cases s) auto

lemma dropWhile_id: "s = [] \<or> \<not> P (hd s) \<Longrightarrow> dropWhile P s = s"
  by (cases s) auto

lemma dropWhile_hd: "dropWhile P s = [] \<or> \<not> P (hd (dropWhile P s))"
  using hd_dropWhile by blast

lemma sub_ws_idem: "sub_ws (sub_ws s) = sub_ws s"
proof (induction s rule: sub_ws.induct)
  case 1
  then show ?case by simp
next
  case (2 c cs)
  show ?case
  proof (cases "isspace c")
    case True
    let ?d = "dropWhile isspace cs"
    have "sub_ws ?d = [] \<or> \<not> isspace (hd (sub_ws ?d))"
      by (rule sub_ws_hd) (rule dropWhile_hd)
    then have "dropWhile isspace (sub_ws ?d) = sub_ws ?d"
      by (rule dropWhile_id)
    moreover have "isspace 32"
      by (simp add: isspace_def)
    ultimately show ?thesis
      using True "2.IH"(1) by simp
  next
    case False
    then show ?thesis using "2.IH"(2) by simp
  qed
qed

lemma last_dropWhile_keep:
  "s \<noteq> [] \<Longrightarrow> \<not> P (last s) \<Longrightarrow> dropWhile P s \<noteq> [] \<and> last (dropWhile P s) = last s"
  by (induction s) (auto split: if_splits)

lemma sub_ws_last:
  "s \<noteq> [] \<Longrightarrow> \<not> isspace (last s) \<Longrightarrow> sub_ws s \<noteq> [] \<and> last (sub_ws s) = last s"
proof (induction s rule: sub_ws.induct)
  case 1
  then show ?case by simp
next
  case (2 c cs)
  show ?case
  proof (cases "isspace c")
    case True
    with "2.prems" have cs: "cs \<noteq> []" "\<not> isspace (last cs)"
      by (auto split: if_splits)
    then have d: "dropWhile isspace cs \<noteq> [] \<and> last (dropWhile isspace cs) = last cs"
      by (rule last_dropWhile_keep)
    with "2.IH"(1) [OF True] cs(2)
    have "sub_ws (dropWhile isspace cs) \<noteq> [] \<and>
          last (sub_ws (dropWhile isspace cs)) = last cs"
      by simp
    with True cs(1) show ?thesis by simp
  next
    case False
    show ?thesis
    proof (cases "cs = []")
      case True
      with False show ?thesis by simp
    next
      case ne: False
      with "2.prems" have "\<not> isspace (last cs)" by simp
      with "2.IH"(2) [OF False ne] have "sub_ws cs \<noteq> [] \<and> last (sub_ws cs) = last cs"
        by simp
      with False ne show ?thesis by simp
    qed
  qed
qed

lemma strip_ends:
  "strip s = [] \<or> (\<not> isspace (hd (strip s)) \<and> \<not> isspace (last (strip s)))"
proof (cases "strip s = []")
  case True
  then show ?thesis by simp
next
  case False
  let ?w = "dropWhile isspace s"
  let ?v = "dropWhile isspace (rev ?w)"
  have v: "?v \<noteq> []"
    using False by (simp add: strip_def)
  then have hv: "\<not> isspace (hd ?v)"
    using dropWhile_hd [of isspace "rev ?w"] by blast
  from v have w: "?w \<noteq> []"
    by (cases "?w") simp_all
  then have hw: "\<not> isspace (hd ?w)"
    using dropWhile_hd [of isspace s] by blast
  have "rev ?w \<noteq> []" "\<not> isspace (last (rev ?w))"
    using w hw by (simp_all add: last_rev)
  then have "last ?v = last (rev ?w)"
    using last_dropWhile_keep by blast
  then have "last ?v = hd ?w"
    using w by (simp add: last_rev)
  then have "hd (strip s) = hd ?w"
    using v by (simp add: strip_def hd_rev)
  moreover have "last (strip s) = hd ?v"
    using v by (simp add: strip_def last_rev)
  ultimately show ?thesis
    using hv hw by simp
qed

lemma strip_id:
  "s = [] \<or> (\<not> isspace (hd s) \<and> \<not> isspace (last s)) \<Longrightarrow> strip s = s"
proof (cases "s = []")
  case True
  then show ?thesis by (simp add: strip_def)
next
  case False
  assume "s = [] \<or> (\<not> isspace (hd s) \<and> \<not> isspace (last s))"
  with False have h: "\<not> isspace (hd s)" "\<not> isspace (last s)" by simp_all
  have "dropWhile isspace s = s"
    using h(1) by (simp add: dropWhile_id)
  moreover have "dropWhile isspace (rev s) = rev s"
    using False h(2) by (intro dropWhile_id) (simp add: hd_rev)
  ultimately show ?thesis
    by (simp add: strip_def)
qed

lemma norm_cell_idem: "norm_cell (PyStr (norm_cell x)) = norm_cell x"
proof (cases "x = PyNone")
  case True
  then show ?thesis
    by (simp add: norm_cell_def strip_def replace_cp_def)
next
  case False
  define y where "y = strip (replace_cp 160 32 (py_str x))"
  define t where "t = sub_ws y"
  have t: "norm_cell x = t"
    using False by (simp add: norm_cell_def y_def t_def)
  have "c \<in> set t \<Longrightarrow> c \<noteq> 160" for c
    using sub_ws_space [of c y] by (auto simp: t_def isspace_def)
  then have r: "replace_cp 160 32 t = t"
    by (simp add: replace_cp_def map_idI)
  have ye: "y = [] \<or> (\<not> isspace (hd y) \<and> \<not> isspace (last y))"
    unfolding y_def by (rule strip_ends)
  have "t = [] \<or> (\<not> isspace (hd t) \<and> \<not> isspace (last t))"
  proof (cases "y = []")
    case True
    then show ?thesis by (simp add: t_def)
  next
    case ne: False
    with ye have h: "\<not> isspace (hd y)" "\<not> isspace (last y)" by simp_all
    have "sub_ws y = [] \<or> \<not> isspace (hd (sub_ws y))"
      using h(1) by (intro sub_ws_hd) simp
    moreover have "sub_ws y \<noteq> [] \<and> last (sub_ws y) = last y"
      using ne h(2) by (rule sub_ws_last)
    ultimately show ?thesis
      using h(2) by (simp add: t_def)
  qed
  then have s: "strip t = t"
    by (rule strip_id)
  have "sub_ws t = t"
    by (simp add: t_def sub_ws_idem)
  then have "norm_cell (PyStr t) = t"
    by (simp add: norm_cell_def r s)
  then show ?thesis
    by (simp only: t)
qed


section \<open>Properties of the Block Parser\<close>

lemma blank_row_not_header: "is_blank_row r \<Longrightarrow> looks_header_row U r = None"
proof -
  assume "is_blank_row r"
  then have "\<forall>c\<in>set r. norm_key U c = []"
    by (simp add: is_blank_row_def list_all_iff norm_key_blank)
  then have "\<forall>c\<in>set r. \<not> satisfies ITEM (norm_key U c)"
    by simp
  then show ?thesis
    unfolding looks_header_row_None by blast
qed

lemma inner_loop_end:
  "\<not> i < length (s_matrix S) \<Longrightarrow> inner_loop S title n mp i s rows = (i, rows)"
  by (subst inner_loop.simps) simp

lemma inner_loop_header:
  "i < length (s_matrix S) \<Longrightarrow> looks_header_row (s_ucd S) (s_matrix S ! i) \<noteq> None \<Longrightarrow>
   inner_loop S title n mp i s rows = (i, rows)"
  by (subst inner_loop.simps) (simp add: Let_def)

lemma inner_loop_blank_first:
  "i < length (s_matrix S) \<Longrightarrow> is_blank_row (s_matrix S ! i) \<Longrightarrow>
   inner_loop S title n mp i 0 rows = inner_loop S title n mp (Suc i) 1 rows"
  by (subst inner_loop.simps) (simp add: Let_def blank_row_not_header)

lemma inner_loop_blank_second:
  "i < length (s_matrix S) \<Longrightarrow> is_blank_row (s_matrix S ! i) \<Longrightarrow> 1 \<le> s \<Longrightarrow>
   inner_loop S title n mp i s rows = (i, rows)"
  by (subst inner_loop.simps) (simp add: Let_def blank_row_not_header)

lemma inner_loop_data:
  "i < length (s_matrix S) \<Longrightarrow> looks_header_row (s_ucd S) (s_matrix S ! i) = None \<Longrightarrow>
   \<not> is_blank_row (s_matrix S ! i) \<Longrightarrow>
   inner_loop S title n mp i s rows =
     inner_loop S title n mp (Suc i) 0 (data_row S title n mp (s_matrix S ! i) rows)"
  by (subst inner_loop.simps) (simp add: Let_def)

lemma outer_body_skip:
  "looks_header_row (s_ucd S) (s_matrix S ! i) = None \<Longrightarrow>
   outer_body S (i, n, rows) = (Suc i, n, rows)"
  by (simp add: outer_body_def)

lemma outer_body_header:
  "looks_header_row (s_ucd S) (s_matrix S ! i) = Some mp \<Longrightarrow>
   outer_body S (i, n, rows) =
     (case inner_loop S (py_or (find_title_near (s_ucd S) (s_matrix S) i) (s_fallback_title S))
             (Suc n) mp (Suc i) 0 rows of
        (i', rows') \<Rightarrow> (i', Suc n, rows'))"
  by (simp add: outer_body_def)

lemma inner_loop_index:
  "i \<le> fst (inner_loop S title n mp i s rows) \<and>
   fst (inner_loop S title n mp i s rows) \<le> max i (length (s_matrix S))"
proof (induction S title n mp i s rows rule: inner_loop.induct)
  case (1 S title bloco_n mapping i blank_streak rows_out)
  show ?case
    using "1.IH"
    by (subst (1 2) inner_loop.simps) (auto simp: Let_def)
qed

lemma outer_body_index:
  assumes "fst st < length (s_matrix S)"
  shows "fst st < fst (outer_body S st) \<and> fst (outer_body S st) \<le> length (s_matrix S)"
proof -
  obtain i n rows where st: "st = (i, n, rows)"
    by (cases st)
  show ?thesis
  proof (cases "looks_header_row (s_ucd S) (s_matrix S ! i)")
    case None
    with assms show ?thesis by (simp add: st outer_body_skip)
  next
    case (Some mp)
    let ?r = "inner_loop S (py_or (find_title_near (s_ucd S) (s_matrix S) i) (s_fallback_title S))
                (Suc n) mp (Suc i) 0 rows"
    have "Suc i \<le> fst ?r \<and> fst ?r \<le> max (Suc i) (length (s_matrix S))"
      by (rule inner_loop_index)
    with assms show ?thesis
      by (auto simp: st outer_body_header [OF Some] split: prod.splits)
  qed
qed

text \<open>
  C9. Every iteration of the outer loop moves the row index strictly forward and never
  past the end of the matrix, whatever happens to the row (skipped, taken as a header,
  followed by a block that ends at another header, at two blank rows or at the end); each
  iteration of the inner loop leaves the loop or moves one row forward. So the loop,
  written as a while loop that could in principle run forever, stops, and it stops in the
  state that \<open>outer_loop\<close> computes.
\<close>

theorem parse_blocks_terminates:
  "(fst st < length (s_matrix S) \<longrightarrow>
      fst st < fst (outer_body S st) \<and> fst (outer_body S st) \<le> length (s_matrix S)) \<and>
   while_option (\<lambda>st. fst st < length (s_matrix S)) (outer_body S) st = Some (outer_loop S st)"
proof
  show "fst st < length (s_matrix S) \<longrightarrow>
      fst st < fst (outer_body S st) \<and> fst (outer_body S st) \<le> length (s_matrix S)"
    using outer_body_index by blast
next
  show "while_option (\<lambda>st. fst st < length (s_matrix S)) (outer_body S) st = Some (outer_loop S st)"
  proof (induction S st rule: outer_loop.induct)
    case (1 S st)
    show ?case
      using "1.IH"
      by (subst while_option_unfold, subst outer_loop.simps) simp
  qed
qed

theorem parse_blocks_terminates_witness:
  "fst (0 :: nat, 0 :: nat, [] :: detail_row list) < length (s_matrix example_sheet) \<and>
   fst (0 :: nat, 0 :: nat, [] :: detail_row list)
     < fst (outer_body example_sheet (0, 0, [])) \<and>
   while_option (\<lambda>st. fst st < length (s_matrix example_sheet)) (outer_body example_sheet) (0, 0, [])
     = Some (outer_loop example_sheet (0, 0, []))"
proof -
  have h: "fst (0 :: nat, 0 :: nat, [] :: detail_row list) < length (s_matrix example_sheet)"
    by code_simp
  show ?thesis
    using parse_blocks_terminates [of "(0, 0, [])" example_sheet] h by blast
qed

lemma data_row_appends:
  "\<exists>new. data_row S title n mp r rows = rows @ new \<and>
     (\<forall>d\<in>set new. d_BLOCO_TABELA d = n \<and> d_DESENHO d = title \<and>
                    norm_cell (PyStr (d_DESCRICAO d)) \<noteq> [])"
  by (simp add: data_row_def Let_def make_row_def)

lemma inner_loop_appends:
  "\<exists>new. snd (inner_loop S title n mp i s rows) = rows @ new \<and>
     (\<forall>d\<in>set new. d_BLOCO_TABELA d = n \<and> d_DESENHO d = title \<and>
                    norm_cell (PyStr (d_DESCRICAO d)) \<noteq> [])"
proof (induction S title n mp i s rows rule: inner_loop.induct)
  case (1 S title n mp i s rows)
  let ?r = "s_matrix S ! i"
  consider (stop) "\<not> i < length (s_matrix S) \<or> looks_header_row (s_ucd S) ?r \<noteq> None \<or>
                   (is_blank_row ?r \<and> 1 \<le> s)"
    | (blank) "i < length (s_matrix S)" "looks_header_row (s_ucd S) ?r = None" "is_blank_row ?r" "s = 0"
    | (data) "i < length (s_matrix S)" "looks_header_row (s_ucd S) ?r = None" "\<not> is_blank_row ?r"
    by (cases s) auto
  then show ?case
  proof cases
    case stop
    then have "inner_loop S title n mp i s rows = (i, rows)"
      by (subst inner_loop.simps) (auto simp: Let_def)
    then show ?thesis by simp
  next
    case blank
    have eq: "inner_loop S title n mp i s rows = inner_loop S title n mp (i + 1) (s + 1) rows"
      using blank by (subst inner_loop.simps) (simp add: Let_def)
    from "1.IH"(1) [OF blank(1) refl _ blank(3)] blank show ?thesis
      unfolding eq by simp
  next
    case data
    have eq: "inner_loop S title n mp i s rows =
        inner_loop S title n mp (i + 1) 0 (data_row S title n mp ?r rows)"
      using data by (subst inner_loop.simps) (simp add: Let_def)
    from data_row_appends [of S title n mp ?r rows] obtain new1 where
      n1: "data_row S title n mp ?r rows = rows @ new1"
          "\<forall>d\<in>set new1. d_BLOCO_TABELA d = n \<and> d_DESENHO d = title \<and>
                    norm_cell (PyStr (d_DESCRICAO d)) \<noteq> []"
      by blast
    from "1.IH"(2) [OF data(1) refl _ data(3)] data obtain new2 where
      n2: "snd (inner_loop S title n mp (i + 1) 0 (data_row S title n mp ?r rows))
             = data_row S title n mp ?r rows @ new2"
          "\<forall>d\<in>set new2. d_BLOCO_TABELA d = n \<and> d_DESENHO d = title \<and>
                    norm_cell (PyStr (d_DESCRICAO d)) \<noteq> []"
      by auto
    have "snd (inner_loop S title n mp i s rows) = rows @ (new1 @ new2)"
      using n2(1) by (simp add: eq n1(1))
    moreover have "\<forall>d\<in>set (new1 @ new2). d_BLOCO_TABELA d = n \<and> d_DESENHO d = title \<and>
                    norm_cell (PyStr (d_DESCRICAO d)) \<noteq> []"
      using n1(2) n2(2) by auto
    ultimately show ?thesis by blast
  qed
qed

lemma blocks_ok_append:
  assumes ok: "blocks_ok n rows"
    and new: "\<forall>d\<in>set new. d_BLOCO_TABELA d = Suc n \<and> d_DESENHO d = title \<and>
                    norm_cell (PyStr (d_DESCRICAO d)) \<noteq> []"
  shows "blocks_ok (Suc n) (rows @ new)"
proof -
  note ok' = ok [unfolded blocks_ok_def]
  have ok1: "\<forall>d\<in>set rows. 1 \<le> d_BLOCO_TABELA d \<and> d_BLOCO_TABELA d \<le> n \<and>
                     norm_cell (PyStr (d_DESCRICAO d)) \<noteq> []"
    by (rule conjunct1 [OF ok'])
  have s1: "sorted (map d_BLOCO_TABELA rows)"
    by (rule conjunct1 [OF conjunct2 [OF ok']])
  have ok3: "\<forall>d\<in>set rows. \<forall>d'\<in>set rows.
        d_BLOCO_TABELA d = d_BLOCO_TABELA d' \<longrightarrow> d_DESENHO d = d_DESENHO d'"
    by (rule conjunct2 [OF conjunct2 [OF ok']])
  have old: "d_BLOCO_TABELA x \<le> n" "1 \<le> d_BLOCO_TABELA x"
       "norm_cell (PyStr (d_DESCRICAO x)) \<noteq> []" if "x \<in> set rows" for x
    using ok1 that by blast+
  have nw: "d_BLOCO_TABELA x = Suc n" "d_DESENHO x = title"
       "norm_cell (PyStr (d_DESCRICAO x)) \<noteq> []" if "x \<in> set new" for x
    using new that by blast+
  have s2: "sorted (map d_BLOCO_TABELA new)"
    using new by (induction new) auto
  have le: "\<forall>x\<in>set rows. \<forall>y\<in>set new. d_BLOCO_TABELA x \<le> d_BLOCO_TABELA y"
  proof (intro ballI)
    fix x y assume "x \<in> set rows" "y \<in> set new"
    then show "d_BLOCO_TABELA x \<le> d_BLOCO_TABELA y"
      using old(1) [of x] nw(1) [of y] by simp
  qed
  have A: "sorted (map d_BLOCO_TABELA (rows @ new))"
    using s1 s2 le by (simp add: sorted_append)
  have B: "\<forall>d\<in>set (rows @ new). 1 \<le> d_BLOCO_TABELA d \<and> d_BLOCO_TABELA d \<le> Suc n \<and>
                     norm_cell (PyStr (d_DESCRICAO d)) \<noteq> []"
  proof
    fix d assume "d \<in> set (rows @ new)"
    then consider "d \<in> set rows" | "d \<in> set new" by auto
    then show "1 \<le> d_BLOCO_TABELA d \<and> d_BLOCO_TABELA d \<le> Suc n \<and>
                     norm_cell (PyStr (d_DESCRICAO d)) \<noteq> []"
    proof cases
      case 1
      with old [of d] show ?thesis by simp
    next
      case 2
      with nw [of d] show ?thesis by simp
    qed
  qed
  have C: "\<forall>d\<in>set (rows @ new). \<forall>d'\<in>set (rows @ new).
        d_BLOCO_TABELA d = d_BLOCO_TABELA d' \<longrightarrow> d_DESENHO d = d_DESENHO d'"
  proof (intro ballI impI)
    fix d d' assume d: "d \<in> set (rows @ new)" "d' \<in> set (rows @ new)"
      and e: "d_BLOCO_TABELA d = d_BLOCO_TABELA d'"
    consider "d \<in> set rows" "d' \<in> set rows" | "d \<in> set new" "d' \<in> set new"
      | "d \<in> set rows" "d' \<in> set new" | "d \<in> set new" "d' \<in> set rows"
      using d by auto
    then show "d_DESENHO d = d_DESENHO d'"
    proof cases
      case 1
      with ok3 e show ?thesis by blast
    next
      case 2
      then show ?thesis using nw(2) by simp
    next
      case 3
      with old(1) [of d] nw(1) [of d'] e show ?thesis by simp
    next
      case 4
      with old(1) [of d'] nw(1) [of d] e show ?thesis by simp
    qed
  qed
  show ?thesis
    unfolding blocks_ok_def using A B C by (intro conjI)
qed

lemma blocks_ok_outer_body:
  assumes "blocks_ok n rows"
  shows "blocks_ok (fst (snd (outer_body S (i, n, rows)))) (snd (snd (outer_body S (i, n, rows))))"
proof (cases "looks_header_row (s_ucd S) (s_matrix S ! i)")
  case None
  with assms show ?thesis by (simp add: outer_body_skip)
next
  case (Some mp)
  let ?title = "py_or (find_title_near (s_ucd S) (s_matrix S) i) (s_fallback_title S)"
  obtain new where
    n: "snd (inner_loop S ?title (Suc n) mp (Suc i) 0 rows) = rows @ new"
       "\<forall>d\<in>set new. d_BLOCO_TABELA d = Suc n \<and> d_DESENHO d = ?title \<and>
                    norm_cell (PyStr (d_DESCRICAO d)) \<noteq> []"
    using inner_loop_appends [of S ?title "Suc n" mp "Suc i" 0 rows] by blast
  have "blocks_ok (Suc n) (rows @ new)"
    using assms n(2) by (rule blocks_ok_append)
  then show ?thesis
    using n(1) by (auto simp: outer_body_header [OF Some] split: prod.splits)
qed

lemma blocks_ok_outer_loop:
  "blocks_ok (fst (snd st)) (snd (snd st)) \<Longrightarrow>
   blocks_ok (fst (snd (outer_loop S st))) (snd (snd (outer_loop S st)))"
proof (induction S st rule: outer_loop.induct)
  case (1 S st)
  obtain i n rows where st: "st = (i, n, rows)" by (cases st)
  show ?case
  proof (cases "fst st < length (s_matrix S)")
    case True
    have "blocks_ok (fst (snd (outer_body S st))) (snd (snd (outer_body S st)))"
      using "1.prems" blocks_ok_outer_body [of n rows S i] by (simp add: st)
    from "1.IH" [OF True this] True show ?thesis
      by (subst (1 2) outer_loop.simps) simp
  next
    case False
    with "1.prems" show ?thesis
      by (subst (1 2) outer_loop.simps) simp
  qed
qed

lemma inner_loop_skips_no_header:
  "filter (is_header S) (drop (fst (inner_loop S title n mp i s rows)) (s_matrix S))
     = filter (is_header S) (drop i (s_matrix S))"
proof (induction S title n mp i s rows rule: inner_loop.induct)
  case (1 S title n mp i s rows)
  let ?r = "s_matrix S ! i"
  consider (stop) "\<not> i < length (s_matrix S) \<or> looks_header_row (s_ucd S) ?r \<noteq> None \<or>
                   (is_blank_row ?r \<and> 1 \<le> s)"
    | (blank) "i < length (s_matrix S)" "looks_header_row (s_ucd S) ?r = None" "is_blank_row ?r" "s = 0"
    | (data) "i < length (s_matrix S)" "looks_header_row (s_ucd S) ?r = None" "\<not> is_blank_row ?r"
    by (cases s) auto
  then show ?case
  proof cases
    case stop
    then have "inner_loop S title n mp i s rows = (i, rows)"
      by (subst inner_loop.simps) (auto simp: Let_def)
    then show ?thesis by simp
  next
    case blank
    have eq: "inner_loop S title n mp i s rows = inner_loop S title n mp (i + 1) (s + 1) rows"
      using blank by (subst inner_loop.simps) (simp add: Let_def)
    have "drop i (s_matrix S) = ?r # drop (i + 1) (s_matrix S)"
      using blank(1) by (simp add: Cons_nth_drop_Suc)
    then have "filter (is_header S) (drop i (s_matrix S))
                 = filter (is_header S) (drop (i + 1) (s_matrix S))"
      using blank(2) by (simp add: is_header_def)
    with "1.IH"(1) [OF blank(1) refl _ blank(3)] blank show ?thesis
      unfolding eq by simp
  next
    case data
    have eq: "inner_loop S title n mp i s rows =
        inner_loop S title n mp (i + 1) 0 (data_row S title n mp ?r rows)"
      using data by (subst inner_loop.simps) (simp add: Let_def)
    have "drop i (s_matrix S) = ?r # drop (i + 1) (s_matrix S)"
      using data(1) by (simp add: Cons_nth_drop_Suc)
    then have "filter (is_header S) (drop i (s_matrix S))
                 = filter (is_header S) (drop (i + 1) (s_matrix S))"
      using data(2) by (simp add: is_header_def)
    with "1.IH"(2) [OF data(1) refl _ data(3)] data show ?thesis
      unfolding eq by simp
  qed
qed

lemma outer_body_counter:
  "fst (snd (outer_body S (i, n, rows))) = (if is_header S (s_matrix S ! i) then Suc n else n)"
  by (cases "looks_header_row (s_ucd S) (s_matrix S ! i)")
     (simp_all add: is_header_def outer_body_skip outer_body_header split: prod.splits)

lemma outer_loop_counter:
  "fst (snd (outer_loop S st))
     = fst (snd st) + length (filter (is_header S) (drop (fst st) (s_matrix S)))"
proof (induction S st rule: outer_loop.induct)
  case (1 S st)
  obtain i n rows where st: "st = (i, n, rows)" by (cases st)
  show ?case
  proof (cases "fst st < length (s_matrix S)")
    case False
    then show ?thesis
      by (subst outer_loop.simps) simp
  next
    case True
    then have i: "i < length (s_matrix S)" by (simp add: st)
    have d: "drop i (s_matrix S) = (s_matrix S ! i) # drop (Suc i) (s_matrix S)"
      using i by (simp add: Cons_nth_drop_Suc)
    have step: "fst (snd (outer_body S st))
                  + length (filter (is_header S) (drop (fst (outer_body S st)) (s_matrix S)))
                = n + length (filter (is_header S) (drop i (s_matrix S)))"
    proof (cases "looks_header_row (s_ucd S) (s_matrix S ! i)")
      case None
      then show ?thesis
        by (simp add: st outer_body_skip d is_header_def)
    next
      case (Some mp)
      let ?title = "py_or (find_title_near (s_ucd S) (s_matrix S) i) (s_fallback_title S)"
      let ?in = "inner_loop S ?title (Suc n) mp (Suc i) 0 rows"
      have ob: "outer_body S st = (fst ?in, Suc n, snd ?in)"
        by (simp add: st outer_body_header [OF Some] split: prod.splits)
      have "filter (is_header S) (drop (fst ?in) (s_matrix S))
              = filter (is_header S) (drop (Suc i) (s_matrix S))"
        by (rule inner_loop_skips_no_header)
      then show ?thesis
        using Some by (simp add: ob d is_header_def)
    qed
    from "1.IH" [OF True] step True show ?thesis
      by (subst outer_loop.simps) (simp add: st)
  qed
qed

text \<open>
  C3. Inside a block, at a blank row \<open>i\<close> reached with a blank streak of 0: if row
  \<open>i + 1\<close> is blank too, the inner loop stops there with the output unchanged, and the
  outer loop, which finds no header in that second blank row, goes on from row \<open>i + 2\<close>
  with the same block counter. If row \<open>i + 1\<close> is a data row (neither blank nor a
  header), the block goes on: that row is handled as data and the loop continues at row
  \<open>i + 2\<close> with the streak back at 0.
\<close>

theorem two_blank_rows_end_block:
  assumes "Suc i < length (s_matrix S)" and "is_blank_row (s_matrix S ! i)"
  shows "(is_blank_row (s_matrix S ! Suc i) \<longrightarrow>
            inner_loop S title n mp i 0 rows = (Suc i, rows) \<and>
            outer_loop S (Suc i, n, rows) = outer_loop S (Suc (Suc i), n, rows)) \<and>
         (\<not> is_blank_row (s_matrix S ! Suc i) \<and>
          looks_header_row (s_ucd S) (s_matrix S ! Suc i) = None \<longrightarrow>
            inner_loop S title n mp i 0 rows =
              inner_loop S title n mp (Suc (Suc i)) 0
                (data_row S title n mp (s_matrix S ! Suc i) rows))"
proof (intro conjI impI)
  assume b: "is_blank_row (s_matrix S ! Suc i)"
  from assms have i: "i < length (s_matrix S)" by simp
  have "inner_loop S title n mp i 0 rows = inner_loop S title n mp (Suc i) 1 rows"
    using i assms(2) by (rule inner_loop_blank_first)
  also have "\<dots> = (Suc i, rows)"
    using assms(1) b by (simp add: inner_loop_blank_second)
  finally show "inner_loop S title n mp i 0 rows = (Suc i, rows)" .
  have "looks_header_row (s_ucd S) (s_matrix S ! Suc i) = None"
    using b by (rule blank_row_not_header)
  then have "outer_body S (Suc i, n, rows) = (Suc (Suc i), n, rows)"
    by (rule outer_body_skip)
  then show "outer_loop S (Suc i, n, rows) = outer_loop S (Suc (Suc i), n, rows)"
    using assms(1) by (subst outer_loop.simps) simp
next
  assume d: "\<not> is_blank_row (s_matrix S ! Suc i) \<and>
          looks_header_row (s_ucd S) (s_matrix S ! Suc i) = None"
  from assms have i: "i < length (s_matrix S)" by simp
  have "inner_loop S title n mp i 0 rows = inner_loop S title n mp (Suc i) 1 rows"
    using i assms(2) by (rule inner_loop_blank_first)
  also have "\<dots> = inner_loop S title n mp (Suc (Suc i)) 0
                (data_row S title n mp (s_matrix S ! Suc i) rows)"
    using assms(1) d by (simp add: inner_loop_data)
  finally show "inner_loop S title n mp i 0 rows =
              inner_loop S title n mp (Suc (Suc i)) 0
                (data_row S title n mp (s_matrix S ! Suc i) rows)" .
qed

theorem two_blank_rows_end_block_witness:
  "(Suc 8 < length (s_matrix example_sheet) \<and> is_blank_row (s_matrix example_sheet ! 8) \<and>
    is_blank_row (s_matrix example_sheet ! Suc 8) \<and>
    inner_loop example_sheet [] 2 Map.empty 8 0 [] = (Suc 8, [])) \<and>
   (Suc 3 < length (s_matrix example_sheet) \<and> is_blank_row (s_matrix example_sheet ! 3) \<and>
    \<not> is_blank_row (s_matrix example_sheet ! Suc 3) \<and>
    looks_header_row (s_ucd example_sheet) (s_matrix example_sheet ! Suc 3) = None \<and>
    inner_loop example_sheet [] 1 Map.empty 3 0 [] =
      inner_loop example_sheet [] 1 Map.empty (Suc (Suc 3)) 0
        (data_row example_sheet [] 1 Map.empty (s_matrix example_sheet ! Suc 3) []))"
proof -
  have a: "Suc 8 < length (s_matrix example_sheet)" "is_blank_row (s_matrix example_sheet ! 8)"
    "is_blank_row (s_matrix example_sheet ! Suc 8)"
    by code_simp+
  have b: "Suc 3 < length (s_matrix example_sheet)" "is_blank_row (s_matrix example_sheet ! 3)"
    "\<not> is_blank_row (s_matrix example_sheet ! Suc 3)"
    "looks_header_row (s_ucd example_sheet) (s_matrix example_sheet ! Suc 3) = None"
    by code_simp+
  show ?thesis
    using two_blank_rows_end_block [OF a(1,2), of "[]" 2 Map.empty "[]"]
      two_blank_rows_end_block [OF b(1,2), of "[]" 1 Map.empty "[]"] a b
    by blast
qed

text \<open>
  C4. At a row that is itself a header, the inner loop stops without adding anything to
  the output and without moving past the row, whatever block it was in. The outer loop
  then takes the row as the header of a new block: the block counter goes up by one, the
  body of the new block starts at the following row with a blank streak of 0 and the
  header's own mapping, and every row the new block adds carries the new number.
\<close>

theorem header_row_starts_new_block:
  assumes "i < length (s_matrix S)"
    and "looks_header_row (s_ucd S) (s_matrix S ! i) = Some mp'"
  shows "inner_loop S title n mp i s rows = (i, rows) \<and>
         (\<exists>i' new.
            outer_body S (i, n, rows) = (i', Suc n, rows @ new) \<and> Suc i \<le> i' \<and>
            inner_loop S (py_or (find_title_near (s_ucd S) (s_matrix S) i) (s_fallback_title S))
              (Suc n) mp' (Suc i) 0 rows = (i', rows @ new) \<and>
            (\<forall>d\<in>set new. d_BLOCO_TABELA d = Suc n))"
proof
  show "inner_loop S title n mp i s rows = (i, rows)"
    using assms by (simp add: inner_loop_header)
next
  let ?title = "py_or (find_title_near (s_ucd S) (s_matrix S) i) (s_fallback_title S)"
  let ?in = "inner_loop S ?title (Suc n) mp' (Suc i) 0 rows"
  obtain new where
    n: "snd ?in = rows @ new" "\<forall>d\<in>set new. d_BLOCO_TABELA d = Suc n"
    using inner_loop_appends [of S ?title "Suc n" mp' "Suc i" 0 rows] by blast
  have "Suc i \<le> fst ?in"
    using inner_loop_index [of "Suc i" S ?title "Suc n" mp' 0 rows] by simp
  moreover have "?in = (fst ?in, rows @ new)"
    using n(1) by (simp add: prod_eq_iff)
  moreover have "outer_body S (i, n, rows) = (fst ?in, Suc n, rows @ new)"
    using n(1) by (auto simp: outer_body_header [OF assms(2)] split: prod.splits)
  ultimately show "\<exists>i' new.
            outer_body S (i, n, rows) = (i', Suc n, rows @ new) \<and> Suc i \<le> i' \<and>
            ?in = (i', rows @ new) \<and> (\<forall>d\<in>set new. d_BLOCO_TABELA d = Suc n)"
    using n(2) by blast
qed

theorem header_row_starts_new_block_witness:
  "6 < length (s_matrix example_sheet) \<and>
   (\<exists>mp'. looks_header_row (s_ucd example_sheet) (s_matrix example_sheet ! 6) = Some mp') \<and>
   inner_loop example_sheet [] 1 Map.empty 6 0 [] = (6, []) \<and>
   (\<exists>i' new. outer_body example_sheet (6, 1, []) = (i', Suc 1, [] @ new))"
proof -
  have a: "6 < length (s_matrix example_sheet)"
    by code_simp
  have "looks_header_row (s_ucd example_sheet) (s_matrix example_sheet ! 6) \<noteq> None"
    by code_simp
  then obtain mp' where
    b: "looks_header_row (s_ucd example_sheet) (s_matrix example_sheet ! 6) = Some mp'"
    by auto
  show ?thesis
    using header_row_starts_new_block [OF a b, of "[]" 1 Map.empty 0 "[]"] a b
    by blast
qed

text \<open>
  C10. In the rows that \<open>parse_blocks\<close> returns for a sheet, block numbers start at 1 and
  never exceed the number of header rows of the sheet; they appear in non-decreasing
  order; the counter goes up by exactly one at each header row and at no other row, and
  ends at the number of header rows; and two rows with the same block number carry the
  same title.
\<close>

theorem block_numbers:
  "let S = sheet_of U df_raw fonte_nome sheet_name fallback_title;
       out = parse_blocks U df_raw fonte_nome sheet_name fallback_title;
       headers = length (filter (is_header S) (s_matrix S))
   in (\<forall>d\<in>set out. 1 \<le> d_BLOCO_TABELA d \<and> d_BLOCO_TABELA d \<le> headers) \<and>
      sorted (map d_BLOCO_TABELA out) \<and>
      fst (snd (outer_loop S (0, 0, []))) = headers \<and>
      (\<forall>i n rows. fst (snd (outer_body S (i, n, rows)))
                     = (if is_header S (s_matrix S ! i) then Suc n else n)) \<and>
      (\<forall>d\<in>set out. \<forall>d'\<in>set out.
         d_BLOCO_TABELA d = d_BLOCO_TABELA d' \<longrightarrow> d_DESENHO d = d_DESENHO d')"
proof -
  define S where "S = sheet_of U df_raw fonte_nome sheet_name fallback_title"
  define fin where "fin = outer_loop S (0, 0, [])"
  have out: "parse_blocks U df_raw fonte_nome sheet_name fallback_title = snd (snd fin)"
    by (simp add: parse_blocks_def S_def fin_def)
  have "blocks_ok (fst (snd (0 :: nat, 0 :: nat, [] :: detail_row list)))
          (snd (snd (0 :: nat, 0 :: nat, [] :: detail_row list)))"
    by (simp add: blocks_ok_def)
  then have "blocks_ok (fst (snd fin)) (snd (snd fin))"
    unfolding fin_def by (rule blocks_ok_outer_loop)
  note ok = this [unfolded blocks_ok_def]
  have cnt: "fst (snd fin) = length (filter (is_header S) (s_matrix S))"
    unfolding fin_def by (simp add: outer_loop_counter)
  have 1: "\<forall>d\<in>set (snd (snd fin)). 1 \<le> d_BLOCO_TABELA d \<and>
             d_BLOCO_TABELA d \<le> length (filter (is_header S) (s_matrix S))"
    using conjunct1 [OF ok] unfolding cnt by blast
  have 2: "sorted (map d_BLOCO_TABELA (snd (snd fin)))"
    by (rule conjunct1 [OF conjunct2 [OF ok]])
  have 3: "\<forall>d\<in>set (snd (snd fin)). \<forall>d'\<in>set (snd (snd fin)).
         d_BLOCO_TABELA d = d_BLOCO_TABELA d' \<longrightarrow> d_DESENHO d = d_DESENHO d'"
    by (rule conjunct2 [OF conjunct2 [OF ok]])
  have 4: "\<forall>i n rows. fst (snd (outer_body S (i, n, rows)))
                     = (if is_header S (s_matrix S ! i) then Suc n else n)"
    by (simp add: outer_body_counter)
  show ?thesis
    unfolding Let_def out S_def [symmetric]
    using 1 2 3 4 cnt unfolding fin_def by (intro conjI)
qed

theorem block_numbers_witness:
  "map (\<lambda>d. (d_BLOCO_TABELA d, d_DESENHO d))
       (parse_blocks latin1 example_df (asc ''lista.xlsx'') (asc ''Plan1'') (asc ''SEM NOME''))
     = [(1, asc ''SUPORTE PARA CHAVE''), (1, asc ''SUPORTE PARA CHAVE''), (2, asc ''Parafuso M8'')] \<and>
   sorted (map d_BLOCO_TABELA
       (parse_blocks latin1 example_df (asc ''lista.xlsx'') (asc ''Plan1'') (asc ''SEM NOME'')))"
proof -
  have "map (\<lambda>d. (d_BLOCO_TABELA d, d_DESENHO d))
       (parse_blocks latin1 example_df (asc ''lista.xlsx'') (asc ''Plan1'') (asc ''SEM NOME''))
     = [(1, asc ''SUPORTE PARA CHAVE''), (1, asc ''SUPORTE PARA CHAVE''), (2, asc ''Parafuso M8'')]"
    by code_simp
  then show ?thesis
    using block_numbers [of latin1 example_df "asc ''lista.xlsx''" "asc ''Plan1''" "asc ''SEM NOME''"]
    unfolding Let_def by blast
qed


end
